theory Spec2Isabelle
  imports Complex_Main
begin

section \<open>Values and errors\<close>

text \<open>
  The program (src/ChebySpec.py) computes with IEEE 754 binary64 values (Python floats
  and NumPy float64). A value is a real number or one of the three special values;
  every arithmetic operation computes the exact real result and rounds it to the
  nearest binary64 number, ties to the even significand, overflowing to an infinity.
  The sign of zero is not kept (the only zero divisor the program can produce is
  \<open>0 * 2.0\<close>, a positive zero).
\<close>

datatype float64 = Fin real | PInf | NInf | NaN

datatype error = ZeroDivisionError | ValueError | IndexError

text \<open>
  The binary exponent of a real number, not below that of the subnormal numbers, and
  the spacing of the binary64 numbers around it (53 significant bits).
\<close>

definition expo :: "real \<Rightarrow> int" where
  "expo x = (if x = 0 then - 1022 else max \<lfloor>log 2 \<bar>x\<bar>\<rfloor> (- 1022))"

definition ulp :: "real \<Rightarrow> real" where
  "ulp x = 2 powr (real_of_int (expo x) - 52)"

text \<open>Rounding to the nearest integer, a tie going to the even one.\<close>

definition round_even :: "real \<Rightarrow> int" where
  "round_even q =
     (if q - of_int \<lfloor>q\<rfloor> < 1 / 2 then \<lfloor>q\<rfloor>
      else if 1 / 2 < q - of_int \<lfloor>q\<rfloor> then \<lfloor>q\<rfloor> + 1
      else if even \<lfloor>q\<rfloor> then \<lfloor>q\<rfloor> else \<lfloor>q\<rfloor> + 1)"

text \<open>
  Rounding of a real number to binary64: the largest finite number is
  \<open>(2^53 - 1) * 2^971\<close>, and a rounded magnitude of \<open>2^1024\<close> is an overflow.
\<close>

definition huge :: real where
  "huge = 2 ^ 1024"

definition rnd :: "real \<Rightarrow> float64" where
  "rnd x =
     (let y = of_int (round_even (x / ulp x)) * ulp x
      in if huge \<le> y then PInf else if y \<le> - huge then NInf else Fin y)"

fun fneg :: "float64 \<Rightarrow> float64" where
  "fneg (Fin a) = Fin (- a)"
| "fneg PInf = NInf"
| "fneg NInf = PInf"
| "fneg NaN = NaN"

fun fadd :: "float64 \<Rightarrow> float64 \<Rightarrow> float64" where
  "fadd (Fin a) (Fin b) = rnd (a + b)"
| "fadd (Fin a) PInf = PInf"
| "fadd (Fin a) NInf = NInf"
| "fadd PInf (Fin b) = PInf"
| "fadd PInf PInf = PInf"
| "fadd NInf (Fin b) = NInf"
| "fadd NInf NInf = NInf"
| "fadd PInf NInf = NaN"
| "fadd NInf PInf = NaN"
| "fadd NaN y = NaN"
| "fadd x NaN = NaN"

definition fsub :: "float64 \<Rightarrow> float64 \<Rightarrow> float64" where
  "fsub x y = fadd x (fneg y)"

text \<open>An infinity with the sign of \<open>a\<close> times the sign of the infinity; \<open>0 * inf\<close> is NaN.\<close>

definition signed_inf :: "real \<Rightarrow> bool \<Rightarrow> float64" where
  "signed_inf a pos =
     (if a = 0 then NaN else if (0 < a) = pos then PInf else NInf)"

fun fmul :: "float64 \<Rightarrow> float64 \<Rightarrow> float64" where
  "fmul (Fin a) (Fin b) = rnd (a * b)"
| "fmul (Fin a) PInf = signed_inf a True"
| "fmul (Fin a) NInf = signed_inf a False"
| "fmul PInf (Fin b) = signed_inf b True"
| "fmul NInf (Fin b) = signed_inf b False"
| "fmul PInf PInf = PInf"
| "fmul NInf NInf = PInf"
| "fmul PInf NInf = NInf"
| "fmul NInf PInf = NInf"
| "fmul NaN y = NaN"
| "fmul x NaN = NaN"

text \<open>
  Division of NumPy float64 scalars: a zero divisor raises nothing (NumPy only emits a
  RuntimeWarning) and the quotient is an infinity, or NaN for \<open>0 / 0\<close>.
\<close>

fun np_divide :: "float64 \<Rightarrow> float64 \<Rightarrow> float64" where
  "np_divide (Fin a) (Fin b) =
     (if b = 0 then signed_inf a True else rnd (a / b))"
| "np_divide (Fin a) PInf = Fin 0"
| "np_divide (Fin a) NInf = Fin 0"
| "np_divide PInf (Fin b) = (if 0 \<le> b then PInf else NInf)"
| "np_divide NInf (Fin b) = (if 0 \<le> b then NInf else PInf)"
| "np_divide PInf PInf = NaN"
| "np_divide PInf NInf = NaN"
| "np_divide NInf PInf = NaN"
| "np_divide NInf NInf = NaN"
| "np_divide NaN y = NaN"
| "np_divide x NaN = NaN"

text \<open>
  Division of a Python float by a Python int (\<open>np.pi*j/N\<close>): a zero divisor raises
  ZeroDivisionError. An int operand is converted to binary64 first; the conversion is
  taken as exact, which it is for every int up to \<open>2^53\<close> in magnitude.
\<close>

definition py_truediv :: "float64 \<Rightarrow> int \<Rightarrow> error + float64" where
  "py_truediv x n =
     (if n = 0 then Inl ZeroDivisionError else Inr (np_divide x (Fin (of_int n))))"

text \<open>
  \<open>np.pi\<close> is the binary64 number nearest to \<open>\<pi>\<close>, and \<open>np.cos\<close> is taken to return the
  binary64 number nearest to the cosine of its argument.
\<close>

definition np_pi :: real where
  "np_pi = 884279719003555 / 2 ^ 48"

fun np_cos :: "float64 \<Rightarrow> float64" where
  "np_cos (Fin a) = rnd (cos a)"
| "np_cos PInf = NaN"
| "np_cos NInf = NaN"
| "np_cos NaN = NaN"

section \<open>Sequences, exceptions and iteration\<close>

fun bindE :: "error + 'a \<Rightarrow> ('a \<Rightarrow> error + 'b) \<Rightarrow> error + 'b" where
  "bindE (Inl e) f = Inl e"
| "bindE (Inr x) f = f x"

text \<open>\<open>for i in is: s = body i s\<close>, stopping at the first exception.\<close>

fun for_loop :: "'i list \<Rightarrow> ('i \<Rightarrow> 's \<Rightarrow> error + 's) \<Rightarrow> 's \<Rightarrow> error + 's" where
  "for_loop [] body s = Inr s"
| "for_loop (i # is) body s = bindE (body i s) (for_loop is body)"

definition range_py :: "int \<Rightarrow> int list" where
  "range_py n = map int [0..<nat n]"

text \<open>Indexing: a negative index counts from the end, an index out of range raises.\<close>

definition py_index :: "'a list \<Rightarrow> int \<Rightarrow> error + nat" where
  "py_index xs i =
     (if 0 \<le> i \<and> i < int (length xs) then Inr (nat i)
      else if i < 0 \<and> - int (length xs) \<le> i then Inr (nat (int (length xs) + i))
      else Inl IndexError)"

definition getitem :: "'a list \<Rightarrow> int \<Rightarrow> error + 'a" where
  "getitem xs i = bindE (py_index xs i) (\<lambda>j. Inr (xs ! j))"

definition setitem :: "'a list \<Rightarrow> int \<Rightarrow> 'a \<Rightarrow> error + 'a list" where
  "setitem xs i v = bindE (py_index xs i) (\<lambda>j. Inr (xs[j := v]))"

definition np_zeros :: "int \<Rightarrow> error + float64 list" where
  "np_zeros n = (if n < 0 then Inl ValueError else Inr (replicate (nat n) (Fin 0)))"

definition np_ones :: "int \<Rightarrow> error + float64 list" where
  "np_ones n = (if n < 0 then Inl ValueError else Inr (replicate (nat n) (Fin 1)))"

section \<open>GLpoints\<close>

text \<open>
  \<^verbatim>\<open>
  X=np.zeros(N+1)
  for j in range(N+1):
      X[j]=-np.cos(np.pi*j/N)
  return X
  \<close>
\<close>

definition GLpoints_body :: "int \<Rightarrow> int \<Rightarrow> float64 list \<Rightarrow> error + float64 list" where
  "GLpoints_body N j X =
     bindE (py_truediv (fmul (Fin np_pi) (Fin (of_int j))) N) (\<lambda>q.
     setitem X j (fneg (np_cos q)))"

definition GLpoints :: "int \<Rightarrow> error + float64 list" where
  "GLpoints N =
     bindE (np_zeros (N + 1)) (\<lambda>X.
     for_loop (range_py (N + 1)) (GLpoints_body N) X)"

section \<open>numpy.polynomial.chebyshev.chebval at a scalar\<close>

text \<open>
  The library routine that findCoeffs calls, for a scalar \<open>x\<close> and a one-dimensional
  coefficient array \<open>c\<close> (Clenshaw recursion):
  \<^verbatim>\<open>
  if len(c) == 1:
      c0 = c[0]; c1 = 0
  elif len(c) == 2:
      c0 = c[0]; c1 = c[1]
  else:
      x2 = 2*x
      c0 = c[-2]; c1 = c[-1]
      for i in range(3, len(c) + 1):
          tmp = c0
          c0 = c[-i] - c1
          c1 = tmp + c1*x2
  return c0 + c1*x
  \<close>
\<close>

definition clenshaw_step ::
  "float64 list \<Rightarrow> float64 \<Rightarrow> int \<Rightarrow> float64 \<times> float64 \<Rightarrow> error + float64 \<times> float64" where
  "clenshaw_step c x2 i s =
     (case s of (c0, c1) \<Rightarrow>
        bindE (getitem c (- i)) (\<lambda>ci.
        Inr (fsub ci c1, fadd c0 (fmul c1 x2))))"

definition chebval :: "float64 \<Rightarrow> float64 list \<Rightarrow> error + float64" where
  "chebval x c =
     (if length c = 1 then
        bindE (getitem c 0) (\<lambda>c0. Inr (fadd c0 (fmul (Fin 0) x)))
      else if length c = 2 then
        bindE (getitem c 0) (\<lambda>c0.
        bindE (getitem c 1) (\<lambda>c1. Inr (fadd c0 (fmul c1 x))))
      else
        (let x2 = fmul (Fin 2) x in
         bindE (getitem c (- 2)) (\<lambda>c0.
         bindE (getitem c (- 1)) (\<lambda>c1.
         bindE (for_loop (map int [3..<length c + 1]) (clenshaw_step c x2) (c0, c1))
           (\<lambda>(c0, c1). Inr (fadd c0 (fmul c1 x)))))))"

section \<open>findCoeffs\<close>

text \<open>
  \<^verbatim>\<open>
  N=len(X)-1
  c=np.ones(N+1)
  c[0]=2
  c[-1]=2
  uhat=np.zeros(N+1)
  for k in range(N+1):
      m=2./(N*c[k])
      d=np.zeros(k+1)
      d[-1]=1
      for j in range(N+1):
          uhat[k]=uhat[k]+U[j]*cheb.chebval(X[j],d)/c[j]
      uhat[k]=m*uhat[k]
  return uhat
  \<close>
\<close>

definition weights :: "int \<Rightarrow> error + float64 list" where
  "weights N =
     bindE (np_ones (N + 1)) (\<lambda>c.
     bindE (setitem c 0 (Fin 2)) (\<lambda>c.
     setitem c (- 1) (Fin 2)))"

definition inner_body ::
  "float64 list \<Rightarrow> float64 list \<Rightarrow> float64 list \<Rightarrow> float64 list \<Rightarrow> int \<Rightarrow> int \<Rightarrow>
   float64 list \<Rightarrow> error + float64 list" where
  "inner_body U X c d k j uhat =
     bindE (getitem uhat k) (\<lambda>uk.
     bindE (getitem U j) (\<lambda>Uj.
     bindE (getitem X j) (\<lambda>Xj.
     bindE (chebval Xj d) (\<lambda>t.
     bindE (getitem c j) (\<lambda>cj.
     setitem uhat k (fadd uk (np_divide (fmul Uj t) cj)))))))"

definition outer_body ::
  "float64 list \<Rightarrow> float64 list \<Rightarrow> float64 list \<Rightarrow> int \<Rightarrow> int \<Rightarrow>
   float64 list \<Rightarrow> error + float64 list" where
  "outer_body U X c N k uhat =
     bindE (getitem c k) (\<lambda>ck.
     let m = np_divide (Fin 2) (fmul (Fin (of_int N)) ck) in
     bindE (np_zeros (k + 1)) (\<lambda>d.
     bindE (setitem d (- 1) (Fin 1)) (\<lambda>d.
     bindE (for_loop (range_py (N + 1)) (inner_body U X c d k) uhat) (\<lambda>uhat.
     bindE (getitem uhat k) (\<lambda>uk.
     setitem uhat k (fmul m uk))))))"

definition findCoeffs :: "float64 list \<Rightarrow> float64 list \<Rightarrow> error + float64 list" where
  "findCoeffs U X =
     (let N = int (length X) - 1 in
      bindE (weights N) (\<lambda>c.
      bindE (np_zeros (N + 1)) (\<lambda>uhat.
      for_loop (range_py (N + 1)) (outer_body U X c N) uhat)))"

section \<open>The transform as the specification words it\<close>


definition quad_c :: "nat \<Rightarrow> nat \<Rightarrow> real" where
  "quad_c N j = (if j = 0 \<or> j = N then 2 else 1)"


section \<open>Auxiliary definitions\<close>

text \<open>
  The array \<open>d\<close> that the outer loop builds for index \<open>k\<close>: \<open>k\<close> zeros followed by a
  one, the coefficients of the Chebyshev polynomial \<open>T\<^sub>k\<close>.
\<close>

definition onehot :: "nat \<Rightarrow> real list" where
  "onehot k = (replicate (Suc k) 0)[k := 1]"

text \<open>The array \<open>c\<close> of the source for degree \<open>N\<close>: ones, with a two at each end.\<close>

definition wlist :: "nat \<Rightarrow> float64 list" where
  "wlist N = (replicate (Suc N) (Fin 1))[0 := Fin 2, N := Fin 2]"

text \<open>
  The value that chebval returns for the coefficient array of \<open>T\<^sub>k\<close> (it never fails on a
  non-empty array), the term that the inner loop adds for index \<open>j\<close>, and the value that
  the outer loop leaves in \<open>uhat[k]\<close>.
\<close>

definition cheb_fl :: "nat \<Rightarrow> float64 \<Rightarrow> float64" where
  "cheb_fl k x = (case chebval x (map Fin (onehot k)) of Inr t \<Rightarrow> t | Inl e \<Rightarrow> NaN)"

definition term_fl :: "nat \<Rightarrow> float64 list \<Rightarrow> float64 list \<Rightarrow> nat \<Rightarrow> nat \<Rightarrow> float64" where
  "term_fl N U X k j = np_divide (fmul (U ! j) (cheb_fl k (X ! j))) (Fin (quad_c N j))"

definition coeff_fl :: "nat \<Rightarrow> float64 list \<Rightarrow> float64 list \<Rightarrow> nat \<Rightarrow> float64" where
  "coeff_fl N U X k =
     fmul (np_divide (Fin 2) (fmul (Fin (real N)) (Fin (quad_c N k))))
       (foldl (\<lambda>s j. fadd s (term_fl N U X k j)) (Fin 0) [0..<N + 1])"

text \<open>The largest power of two among the binary64 numbers.\<close>

definition big :: real where
  "big = 2 ^ 1023"



text \<open>
  The real number to which a real number rounds when the exponent range is unbounded
  above; \<open>rnd\<close> returns it whenever it is below the overflow threshold.
\<close>

definition rn :: "real \<Rightarrow> real" where
  "rn x = of_int (round_even (x / ulp x)) * ulp x"




section \<open>Rounding to binary64\<close>

lemma huge_pos [simp]: "0 < huge"
  by (simp add: huge_def)

lemma round_even_int [simp]: "round_even (of_int n) = n"
  by (simp add: round_even_def)

lemma round_even_0 [simp]: "round_even 0 = 0"
  using round_even_int [of 0] by simp


lemma round_even_err: "\<bar>of_int (round_even q) - q\<bar> \<le> 1 / 2"
proof -
  have "of_int \<lfloor>q\<rfloor> \<le> q" "q < of_int \<lfloor>q\<rfloor> + 1" by linarith+
  then show ?thesis by (auto simp: round_even_def)
qed

lemma round_even_neg: "round_even (- q) = - round_even q"
proof (cases "q = of_int \<lfloor>q\<rfloor>")
  case True
  then obtain n where "q = of_int n" ..
  then have "- q = of_int (- n)" by simp
  then show ?thesis unfolding \<open>q = of_int n\<close> by (simp only: round_even_int)
next
  case False
  have fl: "of_int \<lfloor>q\<rfloor> \<le> q" "q < of_int \<lfloor>q\<rfloor> + 1" by linarith+
  have lt: "of_int \<lfloor>q\<rfloor> < q"
    by (metis False fl(1) order_le_imp_less_or_eq)
  have "\<lfloor>- q\<rfloor> = - \<lfloor>q\<rfloor> - 1"
  proof (rule floor_unique)
    show "of_int (- \<lfloor>q\<rfloor> - 1) \<le> - q" using fl(2) by linarith
    show "- q < of_int (- \<lfloor>q\<rfloor> - 1) + 1" using lt by linarith
  qed
  then show ?thesis
    using lt fl by (auto simp: round_even_def)
qed

lemma expo_neg [simp]: "expo (- x) = expo x"
  by (simp add: expo_def)

lemma ulp_neg [simp]: "ulp (- x) = ulp x"
  by (simp add: ulp_def)

lemma ulp_pos [simp]: "0 < ulp x"
  by (simp add: ulp_def)

lemma ulp_nonzero [simp]: "ulp x \<noteq> 0"
  using ulp_pos [of x] by linarith

lemma ulp_nonneg [simp]: "0 \<le> ulp x"
  using ulp_pos [of x] by linarith

lemma abs_ulp [simp]: "\<bar>ulp x\<bar> = ulp x"
  by simp

lemma huge_powr: "huge = 2 powr 1024"
  unfolding huge_def by (rule powr_numeral [symmetric]) simp



lemma expo_subnormal:
  assumes "\<bar>x\<bar> < 2 powr (- 1022)"
  shows "expo x = - 1022"
proof (cases "x = 0")
  case True
  then show ?thesis by (simp add: expo_def)
next
  case False
  then have pos: "0 < \<bar>x\<bar>" by simp
  have "log 2 \<bar>x\<bar> < - 1022"
    using assms pos log_less_iff [of 2 "\<bar>x\<bar>" "- 1022"] by simp
  then have "\<lfloor>log 2 \<bar>x\<bar>\<rfloor> < - 1022"
    by linarith
  then show ?thesis using False by (simp add: expo_def)
qed


lemma expo_lower:
  assumes "2 powr (- 1022) \<le> \<bar>x\<bar>"
  shows "2 powr (real_of_int (expo x)) \<le> \<bar>x\<bar>"
proof -
  have pos: "0 < \<bar>x\<bar>" using assms by (smt (verit) powr_gt_zero)
  have "- 1022 \<le> log 2 \<bar>x\<bar>"
    using assms pos le_log_iff [of 2 "\<bar>x\<bar>" "- 1022"] by simp
  then have "- 1022 \<le> \<lfloor>log 2 \<bar>x\<bar>\<rfloor>" by linarith
  then have "expo x = \<lfloor>log 2 \<bar>x\<bar>\<rfloor>" using pos by (simp add: expo_def)
  moreover have "real_of_int \<lfloor>log 2 \<bar>x\<bar>\<rfloor> \<le> log 2 \<bar>x\<bar>" by linarith
  ultimately show ?thesis
    using pos le_log_iff [of 2 "\<bar>x\<bar>" "real_of_int \<lfloor>log 2 \<bar>x\<bar>\<rfloor>"] by simp
qed


lemma rnd_0 [simp]: "rnd 0 = Fin 0"
  using huge_pos by (simp add: rnd_def Let_def not_le del: huge_pos)

text \<open>Every binary64 number is its own rounding.\<close>

lemma rnd_exact:
  assumes "\<bar>m\<bar> < 2 ^ 53" "- 1074 \<le> e" "e \<le> 971"
  shows "rnd (of_int m * 2 powr (real_of_int e)) = Fin (of_int m * 2 powr (real_of_int e))"
proof (cases "m = 0")
  case True
  then show ?thesis by simp
next
  case False
  define x where "x = of_int m * 2 powr (real_of_int e)"
  have ax: "\<bar>x\<bar> = of_int \<bar>m\<bar> * 2 powr (real_of_int e)"
    by (simp add: x_def abs_mult)
  have "real_of_int \<bar>m\<bar> < 2 ^ 53"
    using assms(1) by (metis of_int_less_numeral_power_cancel_iff)
  then have lt: "\<bar>x\<bar> < 2 ^ 53 * 2 powr (real_of_int e)"
    unfolding ax by (intro mult_strict_right_mono) simp_all
  have lt': "\<bar>x\<bar> < 2 powr (real_of_int e + 53)"
    using lt by (simp add: powr_add mult.commute)
  have E: "expo x - 52 \<le> e"
  proof (cases "\<bar>x\<bar> < 2 powr (- 1022)")
    case True
    then show ?thesis using assms(2) by (simp add: expo_subnormal)
  next
    case False
    then have "2 powr (real_of_int (expo x)) \<le> \<bar>x\<bar>"
      by (intro expo_lower) simp
    with lt' have "2 powr (real_of_int (expo x)) < 2 powr (real_of_int e + 53)"
      by linarith
    then have "real_of_int (expo x) < real_of_int e + 53"
      by simp
    then show ?thesis by linarith
  qed
  define k where "k = nat (e - (expo x - 52))"
  have k: "real_of_int e = real k + (real_of_int (expo x) - 52)"
    using E by (simp add: k_def)
  define u where "u = ulp x"
  have u: "0 < u" by (simp add: u_def)
  have pk: "2 powr (real_of_int e) = 2 ^ k * u"
    unfolding k u_def by (simp add: powr_add ulp_def powr_realpow)
  have q: "x / u = of_int (m * 2 ^ k)"
    using u by (simp add: x_def pk)
  have "of_int (round_even (x / u)) * u = x"
    unfolding q round_even_int using u by (simp add: x_def pk)
  then have y: "of_int (round_even (x / ulp x)) * ulp x = x"
    by (simp only: u_def)
  have "2 powr (real_of_int e + 53) \<le> 2 powr 1024"
    using assms(3) by (intro powr_mono) simp_all
  then have "2 powr (real_of_int e + 53) \<le> huge"
    by (simp only: huge_powr)
  with lt' have "\<bar>x\<bar> < huge" by linarith
  then have "\<not> huge \<le> x" "\<not> x \<le> - huge" by linarith+
  then have "rnd x = Fin x"
    unfolding rnd_def Let_def y by (simp only: if_False)
  then show ?thesis
    by (simp only: x_def)
qed

lemma rnd_int:
  assumes "\<bar>n\<bar> < 2 ^ 53"
  shows "rnd (of_int n) = Fin (of_int n)"
  using rnd_exact [OF assms, of 0] by simp

lemma rnd_neg: "rnd (- x) = fneg (rnd x)"
proof -
  have "round_even (- x / ulp x) = - round_even (x / ulp x)"
    using round_even_neg [of "x / ulp x"] by simp
  then show ?thesis
    using huge_pos by (auto simp: rnd_def Let_def simp del: huge_pos)
qed

lemma rnd_cases:
  "(\<exists>n. rnd x = Fin (of_int n * ulp x)) \<or> rnd x = PInf \<or> rnd x = NInf"
  unfolding rnd_def Let_def by auto

lemma rnd_not_NaN [simp]: "rnd x \<noteq> NaN"
  by (auto simp: rnd_def Let_def)

lemma rnd_err:
  assumes "rnd x = Fin y"
  shows "\<bar>y - x\<bar> \<le> ulp x / 2"
proof -
  from assms have y: "y = of_int (round_even (x / ulp x)) * ulp x"
    by (auto simp: rnd_def Let_def split: if_splits)
  have "y - x = (of_int (round_even (x / ulp x)) - x / ulp x) * ulp x"
    unfolding y by (simp add: left_diff_distrib)
  then have "\<bar>y - x\<bar> = \<bar>of_int (round_even (x / ulp x)) - x / ulp x\<bar> * ulp x"
    by (simp only: abs_mult abs_of_pos [OF ulp_pos])
  also have "\<dots> \<le> 1 / 2 * ulp x"
    by (intro mult_right_mono round_even_err) simp
  finally show ?thesis by simp
qed


lemma rnd_nonzero:
  assumes "2 powr (- 1075) < \<bar>x\<bar>"
  shows "rnd x \<noteq> Fin 0"
proof -
  have half: "ulp x / 2 < \<bar>x\<bar>"
  proof (cases "\<bar>x\<bar> < 2 powr (- 1022)")
    case True
    then have "ulp x = 2 powr (- 1074)"
      by (simp add: ulp_def expo_subnormal)
    also have "\<dots> / 2 = 2 powr (- 1075)"
      by (simp add: powr_minus field_simps powr_numeral)
    finally show ?thesis using assms by simp
  next
    case False
    then have "2 powr (real_of_int (expo x)) \<le> \<bar>x\<bar>"
      by (intro expo_lower) simp
    moreover have "ulp x / 2 < 2 powr (real_of_int (expo x))"
    proof -
      have "ulp x < 2 powr (real_of_int (expo x))"
        unfolding ulp_def by (intro powr_less_mono) simp_all
      then show ?thesis using ulp_pos [of x] by linarith
    qed
    ultimately show ?thesis by linarith
  qed
  have "round_even (x / ulp x) \<noteq> 0"
  proof
    assume "round_even (x / ulp x) = 0"
    with round_even_err [of "x / ulp x"] have "\<bar>x / ulp x\<bar> \<le> 1 / 2" by simp
    then have "\<bar>x\<bar> \<le> ulp x / 2"
      by (simp add: field_simps)
    with half show False by simp
  qed
  then show ?thesis
    by (auto simp: rnd_def Let_def)
qed

section \<open>Iteration, indexing and the control flow of findCoeffs\<close>

lemma for_loop_append:
  "for_loop (xs @ ys) f s = bindE (for_loop xs f s) (for_loop ys f)"
  by (induction xs arbitrary: s) (auto split: sum.splits, (case_tac "f a s"; simp)+)

lemma py_index_nat: "j < length xs \<Longrightarrow> py_index xs (int j) = Inr j"
  by (simp add: py_index_def)

lemma getitem_nat: "j < length xs \<Longrightarrow> getitem xs (int j) = Inr (xs ! j)"
  by (simp add: getitem_def py_index_nat)

lemma setitem_nat: "j < length xs \<Longrightarrow> setitem xs (int j) v = Inr (xs[j := v])"
  by (simp add: setitem_def py_index_nat)

lemma py_index_neg:
  "0 < i \<Longrightarrow> i \<le> length xs \<Longrightarrow> py_index xs (- int i) = Inr (length xs - i)"
  by (simp add: py_index_def Let_def nat_diff_distrib' of_nat_diff)

lemma getitem_neg:
  "0 < i \<Longrightarrow> i \<le> length xs \<Longrightarrow> getitem xs (- int i) = Inr (xs ! (length xs - i))"
  by (simp add: getitem_def py_index_neg)

lemma setitem_neg:
  "0 < i \<Longrightarrow> i \<le> length xs \<Longrightarrow> setitem xs (- int i) v = Inr (xs[length xs - i := v])"
  by (simp add: setitem_def py_index_neg)

lemma getitem_0: "0 < length xs \<Longrightarrow> getitem xs 0 = Inr (xs ! 0)"
  using getitem_nat [of 0 xs] by simp

lemma getitem_1: "1 < length xs \<Longrightarrow> getitem xs 1 = Inr (xs ! 1)"
  using getitem_nat [of 1 xs] by simp

lemma length_onehot [simp]: "length (onehot k) = Suc k"
  by (simp add: onehot_def del: replicate_Suc)

lemma onehot_nonempty [simp]: "onehot k \<noteq> []"
  by (simp add: onehot_def del: replicate_Suc)

lemma onehot_nth: "i \<le> k \<Longrightarrow> onehot k ! i = (if i = k then 1 else 0)"
  by (simp add: onehot_def nth_list_update del: replicate_Suc)

lemma range_py_Suc: "range_py (int N + 1) = map int [0..<Suc N]"
  by (simp add: range_py_def nat_add_distrib del: upt_Suc)

lemma in_range_py: "i \<in> set (map int [0..<n]) \<longleftrightarrow> (\<exists>j<n. i = int j)"
  by auto

lemma np_zeros_nat: "np_zeros (int k + 1) = Inr (replicate (Suc k) (Fin 0))"
  by (simp add: np_zeros_def nat_add_distrib del: replicate_Suc)

lemma onehot_code:
  "setitem (replicate (Suc k) (Fin 0)) (- 1) (Fin 1)
   = Inr (map Fin (onehot k))"
  using setitem_neg [of 1 "replicate (Suc k) (Fin 0)" "Fin 1"]
  by (simp add: map_update onehot_def del: replicate_Suc)

lemma weights_nat: "weights (int N) = Inr (wlist N)"
  using setitem_neg [of 1 "(replicate (Suc N) (Fin 1))[0 := Fin 2]" "Fin 2"]
    setitem_nat [of 0 "replicate (Suc N) (Fin 1)" "Fin 2"]
  by (simp add: weights_def np_ones_def nat_add_distrib wlist_def del: replicate_Suc)

lemma length_wlist [simp]: "length (wlist N) = Suc N"
  by (simp add: wlist_def del: replicate_Suc)

lemma wlist_nth: "j \<le> N \<Longrightarrow> wlist N ! j = Fin (quad_c N j)"
  by (auto simp: wlist_def quad_c_def nth_list_update simp del: replicate_Suc)

lemma quad_c_nonzero [simp]: "quad_c N j \<noteq> 0"
  by (simp add: quad_c_def)

lemma for_loop_cong:
  "(\<And>i s. i \<in> set is \<Longrightarrow> f i s = g i s) \<Longrightarrow> for_loop is f s = for_loop is g s"
proof (induction "is" arbitrary: s)
  case Nil
  show ?case by simp
next
  case (Cons i "is")
  have "for_loop is f = for_loop is g"
    using Cons by (intro ext) simp
  then show ?case using Cons.prems by simp
qed

lemma for_loop_inv:
  assumes "\<And>i s. i \<in> set is \<Longrightarrow> P s \<Longrightarrow> \<exists>s'. f i s = Inr s' \<and> P s'"
  shows "P s \<Longrightarrow> \<exists>s'. for_loop is f s = Inr s' \<and> P s'"
  using assms
proof (induction "is" arbitrary: s)
  case Nil
  then show ?case by simp
next
  case (Cons i "is")
  from Cons.prems obtain s1 where s1: "f i s = Inr s1" "P s1"
    by (meson list.set_intros(1))
  have "\<exists>s'. for_loop is f s1 = Inr s' \<and> P s'"
    using Cons.prems(2) by (intro Cons.IH [OF s1(2)]) simp
  then show ?case by (simp add: s1)
qed

lemma for_loop_fail_at:
  assumes fail: "\<And>s. f i s = Inl e"
  shows "i \<in> set is \<Longrightarrow> (\<And>j s e'. j \<in> set is \<Longrightarrow> f j s = Inl e' \<Longrightarrow> e' = e) \<Longrightarrow>
    for_loop is f s = Inl e"
proof (induction "is" arbitrary: s)
  case Nil
  then show ?case by simp
next
  case (Cons j "is")
  have rest: "e' = e" if "j' \<in> set is" "f j' s' = Inl e'" for j' s' e'
    using Cons.prems(2) [of j' s' e'] that by simp
  show ?case
  proof (cases "f j s")
    case (Inl e')
    then have "e' = e" using Cons.prems(2) [of j s e'] by simp
    with Inl show ?thesis by simp
  next
    case (Inr s1)
    show ?thesis
    proof (cases "i = j")
      case True
      with Inr fail [of s] show ?thesis by simp
    next
      case False
      with Cons.prems(1) have "i \<in> set is" by simp
      then have "for_loop is f s1 = Inl e"
        using rest by (rule Cons.IH)
      with Inr show ?thesis by simp
    qed
  qed
qed

lemma py_index_error: "py_index xs i = Inl e \<Longrightarrow> e = IndexError"
  by (simp add: py_index_def Let_def split: if_splits)

lemma getitem_error: "getitem xs i = Inl e \<Longrightarrow> e = IndexError"
  by (cases "py_index xs i") (auto simp: getitem_def dest: py_index_error)

lemma setitem_error: "setitem xs i v = Inl e \<Longrightarrow> e = IndexError"
  by (cases "py_index xs i") (auto simp: setitem_def dest: py_index_error)

lemma getitem_beyond: "length xs \<le> j \<Longrightarrow> getitem xs (int j) = Inl IndexError"
  by (simp add: getitem_def py_index_def)

lemma clenshaw_step_ok:
  "0 < i \<Longrightarrow> i \<le> length c \<Longrightarrow> \<exists>s'. clenshaw_step c x2 (int i) s = Inr s'"
  by (cases s) (simp add: clenshaw_step_def getitem_neg)

lemma chebval_ok:
  assumes "c \<noteq> []"
  shows "\<exists>t. chebval x c = Inr t"
proof -
  have "length c \<noteq> 0" using assms by simp
  then consider "length c = 1" | "length c = 2" | "3 \<le> length c"
    by linarith
  then show ?thesis
  proof cases
    case 1
    then show ?thesis by (simp add: chebval_def getitem_0)
  next
    case 2
    then show ?thesis by (simp add: chebval_def getitem_0 getitem_1)
  next
    case 3
    have g2: "getitem c (- 2) = Inr (c ! (length c - 2))"
      using getitem_neg [of 2 c] 3 by simp
    have g1: "getitem c (- 1) = Inr (c ! (length c - 1))"
      using getitem_neg [of 1 c] 3 by simp
    have "\<exists>s'. for_loop (map int [3..<length c + 1]) (clenshaw_step c (fmul (Fin 2) x))
        (c ! (length c - 2), c ! (length c - 1)) = Inr s' \<and> True"
    proof (rule for_loop_inv [where P = "\<lambda>_. True"])
      fix i :: int and s :: "float64 \<times> float64"
      assume "i \<in> set (map int [3..<length c + 1])"
      then obtain j where "i = int j" "0 < j" "j \<le> length c"
        by (auto simp del: upt_Suc)
      then show "\<exists>s'. clenshaw_step c (fmul (Fin 2) x) i s = Inr s' \<and> True"
        using clenshaw_step_ok [of j c] by simp
    qed simp
    then obtain s' where "for_loop (map int [3..<length c + 1]) (clenshaw_step c (fmul (Fin 2) x))
        (c ! (length c - 2), c ! (length c - 1)) = Inr s'"
      by blast
    then show ?thesis
      using 3 by (cases s') (simp add: chebval_def g1 g2 del: upt_Suc)
  qed
qed

lemma inner_body_ok:
  assumes "k < length uhat" "j < length U" "j < length X" "j < length c" "d \<noteq> []"
  shows "\<exists>u. inner_body U X c d (int k) (int j) uhat = Inr u \<and> length u = length uhat"
proof -
  obtain t where "chebval (X ! j) d = Inr t"
    using chebval_ok [OF assms(5)] by blast
  then show ?thesis
    using assms by (simp add: inner_body_def getitem_nat setitem_nat)
qed

lemma inner_body_error:
  assumes "d \<noteq> []" "inner_body U X c d k j uhat = Inl e"
  shows "e = IndexError"
proof -
  have ch: "\<exists>t. chebval x d = Inr t" for x
    by (rule chebval_ok [OF assms(1)])
  show ?thesis
  proof (cases "getitem uhat k")
    case (Inl e1)
    with assms(2) show ?thesis by (auto simp: inner_body_def dest: getitem_error)
  next
    case uk: (Inr uk)
    show ?thesis
    proof (cases "getitem U j")
      case (Inl e1)
      with assms(2) uk show ?thesis by (auto simp: inner_body_def dest: getitem_error)
    next
      case Uj: (Inr Uj)
      show ?thesis
      proof (cases "getitem X j")
        case (Inl e1)
        with assms(2) uk Uj show ?thesis by (auto simp: inner_body_def dest: getitem_error)
      next
        case Xj: (Inr Xj)
        obtain t where t: "chebval Xj d = Inr t" using ch by blast
        show ?thesis
        proof (cases "getitem c j")
          case (Inl e1)
          with assms(2) uk Uj Xj t show ?thesis
            by (auto simp: inner_body_def dest: getitem_error)
        next
          case (Inr cj)
          with assms(2) uk Uj Xj t show ?thesis
            by (auto simp: inner_body_def dest: setitem_error)
        qed
      qed
    qed
  qed
qed

lemma inner_body_short:
  assumes "d \<noteq> []" "length U \<le> j"
  shows "inner_body U X c d k (int j) uhat = Inl IndexError"
proof (cases "getitem uhat k")
  case (Inl e)
  then show ?thesis by (auto simp: inner_body_def dest: getitem_error)
next
  case (Inr uk)
  then show ?thesis using assms by (simp add: inner_body_def getitem_beyond)
qed

lemma outer_body_ok:
  assumes "k \<le> N" "length uhat = Suc N" "Suc N \<le> length U" "length X = Suc N"
  shows "\<exists>u. outer_body U X (wlist N) (int N) (int k) uhat = Inr u \<and> length u = Suc N"
proof -
  let ?d = "map Fin (onehot k)"
  have "\<exists>u. for_loop (map int [0..<Suc N]) (inner_body U X (wlist N) ?d (int k)) uhat = Inr u
      \<and> length u = Suc N"
  proof (rule for_loop_inv [where P = "\<lambda>u. length u = Suc N"])
    fix i :: int and s :: "float64 list"
    assume "i \<in> set (map int [0..<Suc N])" and s: "length s = Suc N"
    then obtain j where j: "i = int j" "j < Suc N"
      unfolding in_range_py by blast
    show "\<exists>s'. inner_body U X (wlist N) ?d (int k) i s = Inr s' \<and> length s' = Suc N"
      using inner_body_ok [of k s j U X "wlist N" ?d] assms j s by simp
  qed (rule assms)
  then obtain u where u: "for_loop (range_py (int N + 1)) (inner_body U X (wlist N) ?d (int k)) uhat
      = Inr u" "length u = Suc N"
    unfolding range_py_Suc by blast
  have ck: "getitem (wlist N) (int k) = Inr (wlist N ! k)"
    using assms by (intro getitem_nat) simp
  show ?thesis
    unfolding outer_body_def ck bindE.simps Let_def np_zeros_nat onehot_code u(1)
    using assms u(2) by (simp add: getitem_nat setitem_nat)
qed

lemma findCoeffs_ok:
  assumes "length X = Suc N" "Suc N \<le> length U"
  shows "\<exists>u. findCoeffs U X = Inr u \<and> length u = Suc N"
proof -
  have N: "int (length X) - 1 = int N" using assms by simp
  have "\<exists>u. for_loop (map int [0..<Suc N]) (outer_body U X (wlist N) (int N))
      (replicate (Suc N) (Fin 0)) = Inr u \<and> length u = Suc N"
  proof (rule for_loop_inv [where P = "\<lambda>u. length u = Suc N"])
    fix i :: int and s :: "float64 list"
    assume "i \<in> set (map int [0..<Suc N])" and s: "length s = Suc N"
    then obtain k where k: "i = int k" "k \<le> N"
      unfolding in_range_py by auto
    show "\<exists>s'. outer_body U X (wlist N) (int N) i s = Inr s' \<and> length s' = Suc N"
      unfolding k by (rule outer_body_ok [OF k(2) s assms(2) assms(1)])
  qed simp
  then show ?thesis
    unfolding findCoeffs_def Let_def N weights_nat bindE.simps np_zeros_nat
    by (simp add: range_py_Suc del: upt_Suc replicate_Suc)
qed

lemma inner_body_take:
  assumes "j < n"
  shows "inner_body (take n U) X c d k (int j) uhat = inner_body U X c d k (int j) uhat"
proof -
  have "getitem (take n U) (int j) = getitem U (int j)"
    using assms by (simp add: getitem_def py_index_def Let_def)
  then show ?thesis by (simp add: inner_body_def)
qed

lemma inner_loop_take:
  "for_loop (range_py (int N + 1)) (inner_body (take (Suc N) U) X c d k) uhat
   = for_loop (range_py (int N + 1)) (inner_body U X c d k) uhat"
  unfolding range_py_Suc
  by (rule for_loop_cong) (auto simp: in_range_py inner_body_take simp del: upt_Suc)

lemma outer_body_take:
  "outer_body (take (Suc N) U) X c (int N) k uhat = outer_body U X c (int N) k uhat"
  by (simp add: outer_body_def inner_loop_take)

lemma findCoeffs_take:
  assumes "length X = Suc N"
  shows "findCoeffs (take (Suc N) U) X = findCoeffs U X"
proof -
  have N: "int (length X) - 1 = int N" using assms by simp
  have "outer_body (take (Suc N) U) X c (int N) = outer_body U X c (int N)" for c
    by (intro ext) (rule outer_body_take)
  then show ?thesis
    unfolding findCoeffs_def Let_def N by simp
qed

lemma findCoeffs_short:
  assumes "length U < length X"
  shows "findCoeffs U X = Inl IndexError"
proof -
  obtain N where X: "length X = Suc N"
    using assms by (cases X) auto
  have N: "int (length X) - 1 = int N" using X by simp
  let ?d = "map Fin (onehot 0)"
  have dne: "?d \<noteq> []" by simp
  have loop: "for_loop (range_py (int N + 1)) (inner_body U X (wlist N) ?d (int 0)) uhat
      = Inl IndexError" for uhat
  proof (rule for_loop_fail_at [where i = "int (length U)"])
    show "inner_body U X (wlist N) ?d (int 0) (int (length U)) s = Inl IndexError" for s
      by (rule inner_body_short [OF dne]) simp
  next
    show "e' = IndexError" if "inner_body U X (wlist N) ?d (int 0) j s = Inl e'" for j s e'
      using inner_body_error [OF dne that] .
  next
    show "int (length U) \<in> set (range_py (int N + 1))"
      using assms X unfolding range_py_Suc in_range_py by auto
  qed
  have ck: "getitem (wlist N) (int 0) = Inr (wlist N ! 0)"
    by (intro getitem_nat) simp
  have body: "outer_body U X (wlist N) (int N) (int 0) uhat = Inl IndexError" for uhat
    unfolding outer_body_def ck bindE.simps Let_def np_zeros_nat onehot_code loop ..
  have range: "range_py (int N + 1) = int 0 # map int [1..<Suc N]"
    unfolding range_py_Suc by (simp add: upt_conv_Cons del: upt_Suc)
  show ?thesis
    unfolding findCoeffs_def Let_def N weights_nat bindE.simps np_zeros_nat range
      for_loop.simps body ..
qed

section \<open>Small binary64 constants\<close>

lemma rnd_numeral [simp]:
  "(numeral n :: int) < 2 ^ 53 \<Longrightarrow> rnd (numeral n) = Fin (numeral n)"
  using rnd_int [of "numeral n"] by simp

lemma rnd_1 [simp]: "rnd 1 = Fin 1"
  using rnd_int [of 1] by simp

lemma rnd_half [simp]: "rnd (1 / 2) = Fin (1 / 2)"
  using rnd_exact [of 1 "- 1"] by (simp add: powr_minus field_simps)

lemma rnd_nonzero_ge1:
  assumes "1 \<le> \<bar>x\<bar>"
  shows "rnd x \<noteq> Fin 0"
proof -
  have "(2::real) powr (- 1075) < 2 powr 0"
    by (intro powr_less_mono) simp_all
  then show ?thesis using assms by (intro rnd_nonzero) simp
qed

lemma fmul_PInf: "fmul PInf y \<in> {PInf, NInf, NaN}"
  by (cases y) (simp_all add: signed_inf_def)

lemma wlist_0: "wlist 0 = [Fin 2]"
  by (simp add: wlist_def)

lemma findCoeffs_single:
  "findCoeffs [u] [x] = Inr [fmul PInf (fadd (Fin 0)
      (np_divide (fmul u (fadd (Fin 1) (fmul (Fin 0) x))) (Fin 2)))]"
  using weights_nat [of 0]
  by (simp add: findCoeffs_def wlist_0 np_zeros_def range_py_def outer_body_def
      inner_body_def getitem_def setitem_def py_index_def chebval_def signed_inf_def)

lemma upt3: "[0..<3] = [0, 1, 2::nat]"
  by (simp add: upt_rec)

lemma wlist_2: "wlist 2 = [Fin 2, Fin 1, Fin 2]"
  by (simp add: wlist_def numeral_3_eq_3 numeral_2_eq_2)

text \<open>
  The three coefficient arrays \<open>d\<close> of a three-point grid and the values chebval
  returns for them.
\<close>

lemma chebval_d0: "chebval (Fin x) [Fin 1] = Inr (fadd (Fin 1) (fmul (Fin 0) (Fin x)))"
  by (simp add: chebval_def getitem_def py_index_def)

lemma chebval_d1: "chebval (Fin x) [Fin 0, Fin 1] = Inr (fadd (Fin 0) (fmul (Fin 1) (Fin x)))"
  by (simp add: chebval_def getitem_def py_index_def)

lemma chebval_d2:
  "chebval (Fin x) [Fin 0, Fin 0, Fin 1]
   = Inr (fadd (fsub (Fin 0) (Fin 1))
        (fmul (fadd (Fin 0) (fmul (Fin 1) (fmul (Fin 2) (Fin x)))) (Fin x)))"
  by (simp add: chebval_def getitem_def py_index_def clenshaw_step_def upt_rec)

section \<open>The loops of findCoeffs\<close>

lemma chebval_cheb_fl: "chebval x (map Fin (onehot k)) = Inr (cheb_fl k x)"
proof -
  obtain t where "chebval x (map Fin (onehot k)) = Inr t"
    using chebval_ok [of "map Fin (onehot k)" x] by auto
  then show ?thesis by (simp add: cheb_fl_def)
qed

lemma inner_body_fl:
  assumes "k < length uhat" "j \<le> N" "j < length U" "j < length X"
  shows "inner_body U X (wlist N) (map Fin (onehot k)) (int k) (int j) uhat
         = Inr (uhat[k := fadd (uhat ! k) (term_fl N U X k j)])"
  using assms
  by (simp add: inner_body_def getitem_nat setitem_nat chebval_cheb_fl wlist_nth term_fl_def)

lemma inner_loop_fl:
  assumes "k < length uhat"
  shows "n \<le> Suc N \<Longrightarrow> n \<le> length U \<Longrightarrow> n \<le> length X \<Longrightarrow>
    for_loop (map int [0..<n]) (inner_body U X (wlist N) (map Fin (onehot k)) (int k)) uhat
    = Inr (uhat[k := foldl (\<lambda>s j. fadd s (term_fl N U X k j)) (uhat ! k) [0..<n]])"
proof (induction n)
  case 0
  then show ?case by simp
next
  case (Suc n)
  let ?f = "\<lambda>s j. fadd s (term_fl N U X k j)"
  let ?u = "uhat[k := foldl ?f (uhat ! k) [0..<n]]"
  have IH: "for_loop (map int [0..<n]) (inner_body U X (wlist N) (map Fin (onehot k)) (int k)) uhat
      = Inr ?u"
    using Suc by simp
  have "inner_body U X (wlist N) (map Fin (onehot k)) (int k) (int n) ?u
      = Inr (?u[k := fadd (?u ! k) (term_fl N U X k n)])"
    using Suc.prems assms by (intro inner_body_fl) simp_all
  then have step: "inner_body U X (wlist N) (map Fin (onehot k)) (int k) (int n) ?u
      = Inr (uhat[k := foldl ?f (uhat ! k) [0..<Suc n]])"
    using assms by simp
  show ?case
    by (simp only: upt_Suc_append [OF le0] map_append for_loop_append IH bindE.simps
        list.map for_loop.simps step)
qed

lemma outer_body_fl:
  assumes "k \<le> N" "length uhat = Suc N" "uhat ! k = Fin 0"
    "Suc N \<le> length U" "length X = Suc N"
  shows "outer_body U X (wlist N) (int N) (int k) uhat = Inr (uhat[k := coeff_fl N U X k])"
proof -
  have k: "k < length uhat" using assms by simp
  have loop: "for_loop (range_py (int N + 1))
        (inner_body U X (wlist N) (map Fin (onehot k)) (int k)) uhat
      = Inr (uhat[k := foldl (\<lambda>s j. fadd s (term_fl N U X k j)) (Fin 0) [0..<N + 1]])"
    using inner_loop_fl [OF k, of "Suc N" N U X] assms
    by (simp add: range_py_Suc del: upt_Suc)
  have ck: "getitem (wlist N) (int k) = Inr (Fin (quad_c N k))"
    using assms getitem_nat [of k "wlist N"] by (simp add: wlist_nth)
  show ?thesis
    unfolding outer_body_def ck bindE.simps Let_def np_zeros_nat onehot_code loop
    using k by (simp add: getitem_nat setitem_nat coeff_fl_def del: upt_Suc)
qed

lemma outer_loop_fl:
  assumes "Suc N \<le> length U" "length X = Suc N"
  shows "n \<le> Suc N \<Longrightarrow>
    for_loop (map int [0..<n]) (outer_body U X (wlist N) (int N)) (replicate (Suc N) (Fin 0))
    = Inr (map (coeff_fl N U X) [0..<n] @ replicate (Suc N - n) (Fin 0))"
proof (induction n)
  case 0
  then show ?case by simp
next
  case (Suc n)
  let ?u = "map (coeff_fl N U X) [0..<n] @ replicate (Suc N - n) (Fin 0)"
  have n: "n \<le> N" using Suc.prems by simp
  have IH: "for_loop (map int [0..<n]) (outer_body U X (wlist N) (int N))
      (replicate (Suc N) (Fin 0)) = Inr ?u"
    using Suc by simp
  have len: "length ?u = Suc N" using n by simp
  have nth: "?u ! n = Fin 0" using n by (simp add: nth_append)
  have step: "outer_body U X (wlist N) (int N) (int n) ?u = Inr (?u[n := coeff_fl N U X n])"
    by (rule outer_body_fl [OF n len nth assms])
  have rep: "replicate (Suc N - n) (Fin 0) = Fin 0 # replicate (Suc N - Suc n) (Fin 0)"
    using n by (simp add: Suc_diff_le)
  have upd: "?u[n := coeff_fl N U X n]
      = map (coeff_fl N U X) [0..<Suc n] @ replicate (Suc N - Suc n) (Fin 0)"
    unfolding rep by (simp add: list_update_append)
  show ?case
    by (simp only: upt_Suc_append [OF le0] map_append for_loop_append IH bindE.simps
        list.map for_loop.simps step upd)
qed

lemma findCoeffs_fl:
  assumes "Suc N \<le> length U" "length X = Suc N"
  shows "findCoeffs U X = Inr (map (coeff_fl N U X) [0..<Suc N])"
proof -
  have N: "int (length X) - 1 = int N" using assms by simp
  show ?thesis
    unfolding findCoeffs_def Let_def N weights_nat bindE.simps
    using outer_loop_fl [OF assms, of "Suc N"]
    by (simp add: np_zeros_nat range_py_Suc del: upt_Suc replicate_Suc)
qed

lemma onehot_0: "onehot 0 = [1]"
  by (simp add: onehot_def)

lemma onehot_1: "onehot (Suc 0) = [0, 1]"
  by (simp add: onehot_def)

lemma onehot_2: "onehot 2 = [0, 0, 1]"
  by (simp add: onehot_def numeral_2_eq_2 numeral_3_eq_3)

lemma cheb_fl_0: "cheb_fl 0 (Fin x) = fadd (Fin 1) (fmul (Fin 0) (Fin x))"
  by (simp add: cheb_fl_def onehot_0 chebval_d0)

lemma cheb_fl_1: "cheb_fl (Suc 0) (Fin x) = fadd (Fin 0) (fmul (Fin 1) (Fin x))"
  using chebval_d1 [of x] by (simp add: cheb_fl_def onehot_1)

lemma cheb_fl_2:
  "cheb_fl 2 (Fin x) = fadd (fsub (Fin 0) (Fin 1))
        (fmul (fadd (Fin 0) (fmul (Fin 1) (fmul (Fin 2) (Fin x)))) (Fin x))"
  using chebval_d2 [of x] by (simp add: cheb_fl_def onehot_2)

lemma findCoeffs_three:
  "findCoeffs (u0 # u1 # u2 # us) [x0, x1, x2]
   = Inr (map (coeff_fl 2 (u0 # u1 # u2 # us) [x0, x1, x2]) [0, 1, 2])"
  using findCoeffs_fl [of 2 "u0 # u1 # u2 # us" "[x0, x1, x2]"]
  by (simp add: upt3)

lemma coeff_fl_three:
  "coeff_fl 2 (u0 # u1 # u2 # us) [x0, x1, x2] k
   = fmul (np_divide (Fin 2) (fmul (Fin 2) (Fin (quad_c 2 k))))
       (fadd (fadd (fadd (Fin 0)
          (np_divide (fmul u0 (cheb_fl k x0)) (Fin 2)))
          (np_divide (fmul u1 (cheb_fl k x1)) (Fin 1)))
          (np_divide (fmul u2 (cheb_fl k x2)) (Fin 2)))"
  by (simp add: coeff_fl_def term_fl_def quad_c_def upt3)

section \<open>Large binary64 numbers\<close>


lemma big_pos: "0 < big"
  by (simp add: big_def)





lemma big_double: "big / 2 + big + big / 2 = huge"
  by (simp add: big_def huge_def)

lemma cheb_fl_0_val [simp]: "cheb_fl 0 (Fin x) = Fin 1"
  by (simp add: cheb_fl_0)

lemma cheb_fl_1_vals [simp]:
  "cheb_fl (Suc 0) (Fin (- 1)) = Fin (- 1)"
  "cheb_fl (Suc 0) (Fin 0) = Fin 0"
  "cheb_fl (Suc 0) (Fin 1) = Fin 1"
  by (simp_all add: cheb_fl_1 rnd_neg)

lemma cheb_fl_2_vals [simp]:
  "cheb_fl 2 (Fin (- 1)) = Fin 1"
  "cheb_fl 2 (Fin 0) = Fin (- 1)"
  "cheb_fl 2 (Fin 1) = Fin 1"
  by (simp_all add: cheb_fl_2 fsub_def rnd_neg)




section \<open>Bounds on pi and the cosine\<close>



















section \<open>The loop of GLpoints\<close>



















section \<open>Monotonicity of rounding\<close>


lemma rnd_Fin_rn: "rnd x = Fin y \<Longrightarrow> y = rn x"
  by (auto simp: rnd_def rn_def Let_def split: if_splits)

lemma rn_neg: "rn (- x) = - rn x"
  using round_even_neg [of "x / ulp x"] by (simp add: rn_def)

lemma rn_0 [simp]: "rn 0 = 0"
  by (simp add: rn_def)


lemma rn_1 [simp]: "rn 1 = 1"
  using rnd_Fin_rn [OF rnd_1] by simp

lemma rn_minus_1 [simp]: "rn (- 1) = - 1"
  by (simp add: rn_neg)






lemma ulp_expo: "expo x = expo y \<Longrightarrow> ulp x = ulp y"
  by (simp add: ulp_def)






section \<open>Accuracy of the grid\<close>




























section \<open>Properties settled by the control flow\<close>

text \<open>
  C3, as stated, fails: for \<open>N = -1\<close> the array has size zero, the loop body never
  runs, and GLpoints returns the empty sequence.
\<close>

theorem GLpoints_minus_one_counterexample: "GLpoints (- 1) = Inr []"
  by (simp add: GLpoints_def np_zeros_def range_py_def)

text \<open>
  C3, amended: GLpoints(0) fails with ZeroDivisionError (the division by \<open>N\<close>),
  GLpoints(N) fails with ValueError (negative array size) for every \<open>N \<le> -2\<close>, and
  GLpoints(-1) returns the empty sequence.
\<close>

theorem GLpoints_nonpositive:
  "N \<le> 0 \<Longrightarrow>
   GLpoints N = (if N = 0 then Inl ZeroDivisionError
                 else if N = - 1 then Inr [] else Inl ValueError)"
  by (simp add: GLpoints_def np_zeros_def range_py_def GLpoints_body_def py_truediv_def)

theorem GLpoints_nonpositive_witness:
  "(0::int) \<le> 0 \<and> GLpoints 0 = Inl ZeroDivisionError \<and>
   (- 2::int) \<le> 0 \<and> GLpoints (- 2) = Inl ValueError"
  using GLpoints_nonpositive [of 0] GLpoints_nonpositive [of "- 2"] by simp

lemma findCoeffs_empty_grid: "findCoeffs U [] = Inl IndexError"
  by (simp add: findCoeffs_def weights_def np_ones_def setitem_def py_index_def)

lemma findCoeffs_not_zero_division: "findCoeffs U X \<noteq> Inl ZeroDivisionError"
proof (cases "length U < length X")
  case True
  then show ?thesis by (simp add: findCoeffs_short)
next
  case False
  show ?thesis
  proof (cases X)
    case Nil
    then show ?thesis by (simp add: findCoeffs_empty_grid)
  next
    case (Cons x xs)
    then have "length X = Suc (length xs)" "Suc (length xs) \<le> length U"
      using False by simp_all
    then obtain u where "findCoeffs U X = Inr u"
      using findCoeffs_ok by blast
    then show ?thesis by simp
  qed
qed

text \<open>
  C2, as stated, fails: with four samples and three grid points no error is signalled;
  the fourth sample is never read.
\<close>

theorem findCoeffs_longer_U_counterexample:
  "findCoeffs (map Fin [1, 0, 1, 7]) (map Fin [- 1, 0, 1]) = Inr (map Fin [1 / 2, 0, 1 / 2])"
  by (simp add: findCoeffs_three coeff_fl_three quad_c_def cheb_fl_0 cheb_fl_1 cheb_fl_2
      fsub_def rnd_neg)

text \<open>
  C2, amended: when \<open>U\<close> is shorter than \<open>X\<close> (or \<open>X\<close> is empty), findCoeffs fails with
  IndexError and returns nothing; when \<open>U\<close> is longer than a non-empty \<open>X\<close>, it signals
  no error and returns a vector of the length of \<open>X\<close>.
\<close>

theorem findCoeffs_length_mismatch:
  assumes "length U \<noteq> length X"
  shows "(length U < length X \<or> X = [] \<longrightarrow> findCoeffs U X = Inl IndexError) \<and>
         (length X < length U \<and> X \<noteq> [] \<longrightarrow>
            (\<exists>uhat. findCoeffs U X = Inr uhat \<and> length uhat = length X))"
proof (intro conjI impI)
  assume "length U < length X \<or> X = []"
  then show "findCoeffs U X = Inl IndexError"
    by (auto simp: findCoeffs_short findCoeffs_empty_grid)
next
  assume a: "length X < length U \<and> X \<noteq> []"
  then obtain N where "length X = Suc N" by (cases X) auto
  with a show "\<exists>uhat. findCoeffs U X = Inr uhat \<and> length uhat = length X"
    using findCoeffs_ok [of X N U] by simp
qed

theorem findCoeffs_length_mismatch_witness:
  "length (map Fin [1, 0]) \<noteq> length (map Fin [- 1, 0, 1]) \<and>
   length (map Fin [1, 0]) < length (map Fin [- 1, 0, 1]) \<and>
   findCoeffs (map Fin [1, 0]) (map Fin [- 1, 0, 1]) = Inl IndexError \<and>
   length (map Fin [1, 0, 1, 7]) \<noteq> length (map Fin [- 1, 0, 1]) \<and>
   length (map Fin [- 1, 0, 1]) < length (map Fin [1, 0, 1, 7]) \<and>
   (\<exists>uhat. findCoeffs (map Fin [1, 0, 1, 7]) (map Fin [- 1, 0, 1]) = Inr uhat \<and> length uhat = 3)"
  using findCoeffs_length_mismatch [of "map Fin [1, 0]" "map Fin [- 1, 0, 1]"]
    findCoeffs_length_mismatch [of "map Fin [1, 0, 1, 7]" "map Fin [- 1, 0, 1]"]
  by (simp add: numeral_3_eq_3)

text \<open>
  C9: whenever \<open>len(U) > len(X) \<ge> 2\<close>, findCoeffs(U, X) signals no error and returns a
  vector of length \<open>len(X)\<close>, the one it returns for the first \<open>len(X)\<close> entries of \<open>U\<close>:
  the trailing entries of \<open>U\<close> are ignored.
\<close>

theorem findCoeffs_ignores_extra:
  assumes "length X < length U" "2 \<le> length X"
  shows "(\<exists>uhat. findCoeffs U X = Inr uhat \<and> length uhat = length X) \<and>
         findCoeffs U X = findCoeffs (take (length X) U) X"
proof -
  obtain N where N: "length X = Suc N"
    using assms by (cases X) auto
  have "\<exists>uhat. findCoeffs U X = Inr uhat \<and> length uhat = length X"
    using findCoeffs_ok [of X N U] assms N by simp
  moreover have "findCoeffs U X = findCoeffs (take (length X) U) X"
    unfolding N using findCoeffs_take [OF N, of U] by simp
  ultimately show ?thesis by simp
qed

theorem findCoeffs_ignores_extra_witness:
  "length (map Fin [- 1, 0, 1]) < length (map Fin [1, 0, 1, 7]) \<and>
   2 \<le> length (map Fin [- 1, 0, 1]) \<and>
   (\<exists>uhat. findCoeffs (map Fin [1, 0, 1, 7]) (map Fin [- 1, 0, 1]) = Inr uhat \<and> length uhat = 3) \<and>
   findCoeffs (map Fin [1, 0, 1, 7]) (map Fin [- 1, 0, 1])
     = findCoeffs (map Fin [1, 0, 1]) (map Fin [- 1, 0, 1])"
proof -
  have h1: "length (map Fin [- 1, 0, 1]) < length (map Fin [1, 0, 1, 7])"
    and h2: "2 \<le> length (map Fin [- 1, 0, 1])"
    by simp_all
  have t: "take 3 (map Fin [1, 0, 1, 7]) = map Fin [1, 0, 1]"
    by (simp add: numeral_3_eq_3)
  have l: "length (map Fin [- 1, 0, 1]) = 3"
    by simp
  from findCoeffs_ignores_extra [OF h1 h2] have
    "(\<exists>uhat. findCoeffs (map Fin [1, 0, 1, 7]) (map Fin [- 1, 0, 1]) = Inr uhat \<and> length uhat = 3) \<and>
     findCoeffs (map Fin [1, 0, 1, 7]) (map Fin [- 1, 0, 1])
       = findCoeffs (map Fin [1, 0, 1]) (map Fin [- 1, 0, 1])"
    unfolding l t .
  with h1 h2 show ?thesis by blast
qed

text \<open>
  C10, as stated, fails in its second half: for inputs of length one the divisor
  \<open>N * c\<^sub>0\<close> is zero, but the float64 division raises nothing; findCoeffs returns a
  vector holding an infinity.
\<close>

theorem findCoeffs_single_point_counterexample: "findCoeffs [Fin 1] [Fin 0] = Inr [PInf]"
  by (simp add: findCoeffs_single signed_inf_def)

text \<open>
  C10, amended: when \<open>len(X) \<ge> 2\<close>, the array \<open>c\<close> has no zero entry and no product
  \<open>N * c\<^sub>k\<close> is zero, and findCoeffs never fails with a division-by-zero error; when
  \<open>len(X) = 1\<close> the divisor \<open>N * c\<^sub>0\<close> is zero, the quotient \<open>m\<close> is an infinity, and for a
  non-empty \<open>U\<close> findCoeffs returns a one-element vector holding an infinity or NaN.
\<close>

theorem findCoeffs_divisors:
  "(2 \<le> length X \<longrightarrow>
      (\<exists>c. weights (int (length X) - 1) = Inr c \<and> length c = length X \<and>
         (\<forall>k<length X. c ! k \<noteq> Fin 0 \<and> fmul (Fin (real_of_int (int (length X) - 1))) (c ! k) \<noteq> Fin 0)) \<and>
      findCoeffs U X \<noteq> Inl ZeroDivisionError) \<and>
   (length X = 1 \<longrightarrow>
      weights (int (length X) - 1) = Inr [Fin 2] \<and>
      fmul (Fin (real_of_int (int (length X) - 1))) (Fin 2) = Fin 0 \<and>
      np_divide (Fin 2) (Fin 0) = PInf \<and>
      (U \<noteq> [] \<longrightarrow> (\<exists>v. findCoeffs U X = Inr [v] \<and> v \<in> {PInf, NInf, NaN})))"
proof (intro conjI impI)
  assume X: "2 \<le> length X"
  define N where "N = length X - 1"
  have N: "length X = Suc N" "0 < N"
    using X by (simp_all add: N_def)
  have i: "int (length X) - 1 = int N" using N by simp
  have "\<forall>k<length X. wlist N ! k \<noteq> Fin 0 \<and> fmul (Fin (real_of_int (int N))) (wlist N ! k) \<noteq> Fin 0"
  proof (intro allI impI)
    fix k assume "k < length X"
    then have k: "k \<le> N" using N by simp
    have "1 \<le> \<bar>real N * quad_c N k\<bar>"
      using N by (simp add: quad_c_def)
    then have "rnd (real N * quad_c N k) \<noteq> Fin 0"
      by (rule rnd_nonzero_ge1)
    then show "wlist N ! k \<noteq> Fin 0 \<and> fmul (Fin (real_of_int (int N))) (wlist N ! k) \<noteq> Fin 0"
      using k by (simp add: wlist_nth)
  qed
  then show "\<exists>c. weights (int (length X) - 1) = Inr c \<and> length c = length X \<and>
      (\<forall>k<length X. c ! k \<noteq> Fin 0 \<and> fmul (Fin (real_of_int (int (length X) - 1))) (c ! k) \<noteq> Fin 0)"
    unfolding i weights_nat using N by simp
  show "findCoeffs U X \<noteq> Inl ZeroDivisionError"
    by (rule findCoeffs_not_zero_division)
next
  assume X: "length X = 1"
  show "weights (int (length X) - 1) = Inr [Fin 2]"
    using weights_nat [of 0] by (simp add: X wlist_0)
  show "fmul (Fin (real_of_int (int (length X) - 1))) (Fin 2) = Fin 0"
    by (simp add: X)
  show "np_divide (Fin 2) (Fin 0) = PInf"
    by (simp add: signed_inf_def)
  assume U: "U \<noteq> []"
  obtain x where x: "X = [x]"
    using X by (cases X) auto
  obtain u us where u: "U = u # us"
    using U by (cases U) auto
  have "findCoeffs U X = findCoeffs (take (Suc 0) U) X"
    using findCoeffs_take [of X 0 U] X by simp
  also have "\<dots> = findCoeffs [u] [x]"
    by (simp add: x u)
  finally show "\<exists>v. findCoeffs U X = Inr [v] \<and> v \<in> {PInf, NInf, NaN}"
    using fmul_PInf by (simp only: findCoeffs_single) blast
qed

theorem findCoeffs_divisors_witness:
  "2 \<le> length [Fin (- 1), Fin 0, Fin 1] \<and>
   weights (int (length [Fin (- 1), Fin 0, Fin 1]) - 1) = Inr [Fin 2, Fin 1, Fin 2] \<and>
   findCoeffs [Fin 1, Fin 0, Fin 1] [Fin (- 1), Fin 0, Fin 1] \<noteq> Inl ZeroDivisionError \<and>
   length [Fin 0] = 1 \<and> [NaN] \<noteq> [] \<and>
   (\<exists>v. findCoeffs [NaN] [Fin 0] = Inr [v] \<and> v \<in> {PInf, NInf, NaN})"
  using findCoeffs_divisors [of "[Fin (- 1), Fin 0, Fin 1]" "[Fin 1, Fin 0, Fin 1]"]
    findCoeffs_divisors [of "[Fin 0]" "[NaN]"] weights_nat [of 2]
  by (simp add: wlist_def numeral_3_eq_3 numeral_2_eq_2)

section \<open>The coefficient formula\<close>




section \<open>Properties of the grid\<close>



























end
